theory Spec2Isabelle
  imports Complex_Main
begin

section \<open>Values and dictionaries\<close>

text \<open>
  The records handled by \<^verbatim>\<open>TextPDFParser\<close> are Python dictionaries from field names to
  either a string (produced by a text block) or a list of strings (a table column).
  \<^verbatim>\<open>isinstance(v, list)\<close> is the test on the constructor.

  A Python dictionary keeps its keys in insertion order and assigning to a key that is
  present keeps the key's position, so a dictionary is an association list and
  \<open>dict_set\<close> is the assignment \<^verbatim>\<open>d[k] = v\<close>. Lists are modelled by value: the
  fragments merged by the parser are built afresh for every table and text block and
  are dropped after the merge, so no list is reachable from two places.
\<close>

datatype val = Scalar string | Sequence "string list"

type_synonym dict = "(string \<times> val) list"

fun dict_set :: "string \<Rightarrow> 'v \<Rightarrow> (string \<times> 'v) list \<Rightarrow> (string \<times> 'v) list" where
  "dict_set k v [] = [(k, v)]"
| "dict_set k v ((k', v') # d) = (if k' = k then (k, v) # d else (k', v') # dict_set k v d)"

definition keys :: "(string \<times> 'v) list \<Rightarrow> string list" where
  "keys d = map fst d"

section \<open>The merger\<close>

text \<open>
  \<^verbatim>\<open>
  def _merge_data(self, existing, new):
      for key, value in new.items():
          if key in existing:
              if isinstance(existing[key], list) and isinstance(value, list):
                  existing[key].extend(value)
              elif isinstance(existing[key], list):
                  existing[key].append(value)
              else:
                  existing[f"{key}_conflict"] = value
          else:
              existing[key] = value
      return existing
  \<close>
  \<open>merge_item\<close> is the body of the loop for one item, \<open>merge_data\<close> the loop.
\<close>

definition merge_item :: "dict \<Rightarrow> string \<Rightarrow> val \<Rightarrow> dict" where
  "merge_item existing key value =
     (case map_of existing key of
        Some (Sequence xs) \<Rightarrow>
          (case value of
             Sequence ys \<Rightarrow> dict_set key (Sequence (xs @ ys)) existing
           | Scalar s \<Rightarrow> dict_set key (Sequence (xs @ [s])) existing)
      | Some (Scalar a) \<Rightarrow> dict_set (key @ ''_conflict'') value existing
      | None \<Rightarrow> dict_set key value existing)"

fun merge_data :: "dict \<Rightarrow> dict \<Rightarrow> dict" where
  "merge_data existing [] = existing"
| "merge_data existing ((key, value) # new) = merge_data (merge_item existing key value) new"

section \<open>Strings\<close>

text \<open>
  A string is the list of its characters; a character stands for a code point below
  256. \<open>is_space\<close> holds of the code points that \<^verbatim>\<open>str.isspace\<close>, \<^verbatim>\<open>str.strip()\<close> and
  the regular expression \<^verbatim>\<open>\s\<close> take for whitespace in that range.
\<close>

definition whitespace :: "char list" where
  "whitespace =
     [CHR 0x09, CHR 0x0A, CHR 0x0B, CHR 0x0C, CHR 0x0D, CHR 0x1C, CHR 0x1D, CHR 0x1E,
      CHR 0x1F, CHR 0x20, CHR 0x85, CHR 0xA0]"

definition is_space :: "char \<Rightarrow> bool" where
  "is_space c = (c \<in> set whitespace)"

text \<open>\<^verbatim>\<open>s.strip()\<close>: whitespace removed at both ends.\<close>

definition strip :: "string \<Rightarrow> string" where
  "strip s = rev (dropWhile is_space (rev (dropWhile is_space s)))"

text \<open>\<^verbatim>\<open>re.sub(r'\s+', ' ', s)\<close>: every maximal run of whitespace becomes one space.\<close>

function collapse_ws :: "string \<Rightarrow> string" where
  "collapse_ws [] = []"
| "collapse_ws (c # cs) =
     (if is_space c then CHR '' '' # collapse_ws (dropWhile is_space cs)
      else c # collapse_ws cs)"
  by pat_completeness auto
termination
  by (relation "measure length") (auto simp: length_dropWhile_le less_Suc_eq_le)

text \<open>\<^verbatim>\<open>s.split('\n')\<close>: the pieces between line feeds; the empty string gives one empty piece.\<close>

fun split_lines :: "string \<Rightarrow> string list" where
  "split_lines [] = [[]]"
| "split_lines (c # cs) =
     (if c = CHR 0x0A then [] # split_lines cs
      else (case split_lines cs of
              [] \<Rightarrow> [[c]]
            | l # ls \<Rightarrow> (c # l) # ls))"

text \<open>\<^verbatim>\<open>s.rstrip()\<close>: whitespace removed at the end only.\<close>

definition rstrip :: "string \<Rightarrow> string" where
  "rstrip s = rev (dropWhile is_space (rev s))"

text \<open>
  \<^verbatim>\<open>
  def _clean_table_cell(self, cell):
      return re.sub(r'\s+', ' ', cell).strip()
  \<close>
\<close>

definition clean_table_cell :: "string \<Rightarrow> string" where
  "clean_table_cell cell = strip (collapse_ws cell)"

section \<open>Text blocks\<close>

text \<open>
  \<^verbatim>\<open>
  def _process_text_block(self, text):
      processed = {}
      lines = [re.sub(r'\s+', ' ', line.strip()) for line in text.split('\n')]
      lines = [line for line in lines if line]
      current_key = None
      for i, line in enumerate(lines):
          if i % 2 == 0:
              current_key = line
          else:
              if current_key:
                  processed[current_key] = line
                  current_key = None
      if current_key is not None and current_key not in processed:
          processed[current_key] = ''
      return processed
  \<close>
  \<open>text_lines\<close> is the list \<^verbatim>\<open>lines\<close> after the two comprehensions, \<open>pair_lines\<close> the loop
  with its state \<^verbatim>\<open>(processed, current_key)\<close> and the index \<^verbatim>\<open>i\<close>.
\<close>

definition text_lines :: "string \<Rightarrow> string list" where
  "text_lines text =
     filter (\<lambda>line. line \<noteq> []) (map (\<lambda>line. collapse_ws (strip line)) (split_lines text))"

fun pair_lines :: "nat \<Rightarrow> string list \<Rightarrow> dict \<times> string option \<Rightarrow> dict \<times> string option" where
  "pair_lines i [] st = st"
| "pair_lines i (line # lines) (processed, current_key) =
     (if i mod 2 = 0 then pair_lines (Suc i) lines (processed, Some line)
      else (case current_key of
              Some k \<Rightarrow>
                (if k \<noteq> [] then pair_lines (Suc i) lines (dict_set k (Scalar line) processed, None)
                 else pair_lines (Suc i) lines (processed, current_key))
            | None \<Rightarrow> pair_lines (Suc i) lines (processed, current_key)))"

definition process_text_block :: "string \<Rightarrow> dict" where
  "process_text_block text =
     (case pair_lines 0 (text_lines text) ([], None) of
        (processed, Some k) \<Rightarrow>
          (if k \<notin> set (keys processed) then dict_set k (Scalar []) processed else processed)
      | (processed, None) \<Rightarrow> processed)"

text \<open>
  The pairing as the specification words it: the lines taken two at a time, each pair
  assigned in turn, and a last line left alone added with the empty string unless its
  key is there already.
\<close>

fun line_pairs :: "string list \<Rightarrow> (string \<times> string) list" where
  "line_pairs (k # v # rest) = (k, v) # line_pairs rest"
| "line_pairs [k] = []"
| "line_pairs [] = []"

definition assign_pairs :: "dict \<Rightarrow> (string \<times> string) list \<Rightarrow> dict" where
  "assign_pairs d ps = foldl (\<lambda>d (k, v). dict_set k (Scalar v) d) d ps"

definition paired_fragment :: "string list \<Rightarrow> dict" where
  "paired_fragment lines =
     (let d = assign_pairs [] (line_pairs lines)
      in if odd (length lines) \<and> last lines \<notin> set (keys d)
         then dict_set (last lines) (Scalar []) d else d)"

section \<open>Tables\<close>

text \<open>
  An exception raised by the code or by the library is a value of \<open>exc\<close>; a computation
  that may raise returns \<open>exc + 'a\<close>, with \<open>Inl\<close> for the exception.
\<close>

datatype exc = KeyError | TypeError | IndexError | OtherError

text \<open>
  A cell of an extracted table is a string or \<^verbatim>\<open>None\<close>; \<^verbatim>\<open>str(cell)\<close> turns \<^verbatim>\<open>None\<close>
  into the text \<^verbatim>\<open>None\<close>.
\<close>

type_synonym cell = "string option"

definition str_cell :: "cell \<Rightarrow> string" where
  "str_cell cell = (case cell of None \<Rightarrow> ''None'' | Some s \<Rightarrow> s)"

text \<open>
  \<^verbatim>\<open>list(zip(*rows))\<close>: the columns of the rows, as many as the shortest row has cells;
  none when there is no row.
\<close>

function zip_star :: "'a list list \<Rightarrow> 'a list list" where
  "zip_star rows =
     (if rows = [] \<or> [] \<in> set rows then [] else map hd rows # zip_star (map tl rows))"
  by pat_completeness auto
termination
proof (relation "measure (\<lambda>rows. length (hd rows))")
  show "wf (measure (\<lambda>rows :: 'a list list. length (hd rows)))"
    by simp
next
  fix rows :: "'a list list"
  assume "\<not> (rows = [] \<or> [] \<in> set rows)"
  then have "rows \<noteq> []" and "hd rows \<noteq> []"
    by (cases rows; force)+
  then show "(map tl rows, rows) \<in> measure (\<lambda>rows. length (hd rows))"
    by (simp add: hd_map)
qed

declare zip_star.simps [simp del]

text \<open>
  Rectangles of the page, \<^verbatim>\<open>pymupdf.Rect(x0, y0, x1, y1)\<close>: \<open>y0\<close> is the top edge and
  \<open>y1\<close> the bottom edge.
\<close>

record rect =
  x0 :: real
  y0 :: real
  x1 :: real
  y1 :: real

text \<open>
  A table found on a page: what \<^verbatim>\<open>table.extract()\<close> returns or raises, and
  \<^verbatim>\<open>table.bbox\<close>.
\<close>

record table =
  table_extract :: "exc + cell list list"
  table_bbox :: rect

text \<open>
  \<^verbatim>\<open>
  def _process_table(self, table):
      try:
          data = table.extract()
          if len(data) < 2:
              return {}
          headers = [self._clean_table_cell(str(cell)) for cell in data[0]]
          columns = list(zip(*data[1:]))
          return {
              header: [self._clean_table_cell(str(cell)) for cell in column]
              for header, column in zip(headers, columns) if header
          }
      except (TypeError, IndexError) as e:
          logger.warning(f"Table processing error: {str(e)}")
          return {}
  \<close>
  \<open>table_fragment\<close> is the dictionary comprehension, \<open>process_grid\<close> the body of the
  \<^verbatim>\<open>try\<close> once the grid is there.
\<close>

definition table_fragment :: "string list \<Rightarrow> cell list list \<Rightarrow> dict" where
  "table_fragment headers columns =
     foldl (\<lambda>d (header, column).
              if header \<noteq> []
              then dict_set header (Sequence (map (\<lambda>cell. clean_table_cell (str_cell cell)) column)) d
              else d)
       [] (zip headers columns)"

definition process_grid :: "cell list list \<Rightarrow> dict" where
  "process_grid data =
     (if length data < 2 then []
      else (case data of
              [] \<Rightarrow> []
            | row0 # rows \<Rightarrow>
                table_fragment (map (\<lambda>cell. clean_table_cell (str_cell cell)) row0) (zip_star rows)))"

definition process_table :: "table \<Rightarrow> exc + dict" where
  "process_table t =
     (case table_extract t of
        Inr data \<Rightarrow> Inr (process_grid data)
      | Inl e \<Rightarrow> (if e = TypeError \<or> e = IndexError then Inr [] else Inl e))"

section \<open>Pattern matching\<close>

text \<open>
  \<^verbatim>\<open>
  def _compile_pattern(self, text):
      return re.compile(re.escape(text.strip()), flags=re.IGNORECASE)
  \<close>
  The pattern is an escaped literal, so a compiled pattern is the stripped text and
  \<^verbatim>\<open>pattern.search(s)\<close> holds when the text occurs in \<open>s\<close>, letter case ignored.
  \<open>lower\<close> folds the letters that have a lower-case form below code point 256.
\<close>

definition upper_chars :: "char list" where
  "upper_chars = ''ABCDEFGHIJKLMNOPQRSTUVWXYZ'' @
     [CHR 0xC0, CHR 0xC1, CHR 0xC2, CHR 0xC3, CHR 0xC4, CHR 0xC5, CHR 0xC6, CHR 0xC7,
      CHR 0xC8, CHR 0xC9, CHR 0xCA, CHR 0xCB, CHR 0xCC, CHR 0xCD, CHR 0xCE, CHR 0xCF,
      CHR 0xD0, CHR 0xD1, CHR 0xD2, CHR 0xD3, CHR 0xD4, CHR 0xD5, CHR 0xD6,
      CHR 0xD8, CHR 0xD9, CHR 0xDA, CHR 0xDB, CHR 0xDC, CHR 0xDD, CHR 0xDE]"

definition lower_chars :: "char list" where
  "lower_chars = ''abcdefghijklmnopqrstuvwxyz'' @
     [CHR 0xE0, CHR 0xE1, CHR 0xE2, CHR 0xE3, CHR 0xE4, CHR 0xE5, CHR 0xE6, CHR 0xE7,
      CHR 0xE8, CHR 0xE9, CHR 0xEA, CHR 0xEB, CHR 0xEC, CHR 0xED, CHR 0xEE, CHR 0xEF,
      CHR 0xF0, CHR 0xF1, CHR 0xF2, CHR 0xF3, CHR 0xF4, CHR 0xF5, CHR 0xF6,
      CHR 0xF8, CHR 0xF9, CHR 0xFA, CHR 0xFB, CHR 0xFC, CHR 0xFD, CHR 0xFE]"

definition lower :: "char \<Rightarrow> char" where
  "lower c = (case map_of (zip upper_chars lower_chars) c of Some l \<Rightarrow> l | None \<Rightarrow> c)"

definition compile_pattern :: "string \<Rightarrow> string" where
  "compile_pattern text = strip text"

fun match_here :: "string \<Rightarrow> string \<Rightarrow> bool" where
  "match_here [] s = True"
| "match_here (p # ps) [] = False"
| "match_here (p # ps) (c # cs) = (lower p = lower c \<and> match_here ps cs)"

fun search :: "string \<Rightarrow> string \<Rightarrow> bool" where
  "search pat [] = match_here pat []"
| "search pat (c # cs) = (match_here pat (c # cs) \<or> search pat cs)"

text \<open>
  \<^verbatim>\<open>
  def __init__(self, config):
      self.config = config
      self.section_title = config.get('section_title', 'Section 14')
      self._compiled_patterns = {
          'section': self._compile_pattern(self.section_title),
          'base_section': self._compile_pattern("section")
      }
  \<close>
\<close>

record parser =
  section_title :: string

definition new_parser :: "(string \<times> string) list \<Rightarrow> parser" where
  "new_parser config =
     \<lparr>section_title =
        (case map_of config ''section_title'' of Some t \<Rightarrow> t | None \<Rightarrow> ''Section 14'')\<rparr>"

definition section_pattern :: "parser \<Rightarrow> string" where
  "section_pattern P = compile_pattern (section_title P)"

definition base_section_pattern :: "string" where
  "base_section_pattern = compile_pattern ''section''"

section \<open>Pages and documents\<close>

text \<open>
  The PDF library is outside the repository. A page is what its methods return:
  \<^verbatim>\<open>page.get_text()\<close>, \<^verbatim>\<open>page.search_for(needle)\<close> (the needle is a string or, as
  \<^verbatim>\<open>_find_section_boundaries\<close> can make it, \<^verbatim>\<open>None\<close>; the call returns rectangles or
  raises), \<^verbatim>\<open>page.rect.width\<close>, \<^verbatim>\<open>page.find_tables(clip=bbox)\<close> and
  \<^verbatim>\<open>page.get_text("blocks", clip=bbox)\<close>. The two methods of \<^verbatim>\<open>pymupdf.Rect\<close> that the
  parser calls, \<^verbatim>\<open>rect.intersects(zone)\<close> and the truth value of a rectangle, are
  parameters of the model.
\<close>

record block =
  block_rect :: rect
  block_text :: string

record page =
  get_text :: string
  search_for :: "string option \<Rightarrow> exc + rect list"
  rect_width :: real
  find_tables :: "rect \<Rightarrow> table list"
  get_text_blocks :: "rect \<Rightarrow> block list"

record document =
  doc_name :: string
  doc_pages :: "page list"

record rect_methods =
  intersects :: "rect \<Rightarrow> rect \<Rightarrow> bool"
  rect_bool :: "rect \<Rightarrow> bool"

section \<open>Section boundaries and the region\<close>

text \<open>
  \<^verbatim>\<open>
  def _find_section_boundaries(self, page):
      text = page.get_text("text")
      boundaries = {}
      lines = (line.strip() for line in text.split('\n'))
      for line in lines:
          if self._compiled_patterns['section'].search(line):
              boundaries["start_marker"] = line
              boundaries["stop_marker"] = next(
                  (l for l in lines if self._compiled_patterns['base_section'].search(l)),
                  None
              )
              break
      return boundaries if boundaries else None
  \<close>
  \<^verbatim>\<open>lines\<close> is one generator, so the search for the stop marker goes on from the line
  after the start marker.
\<close>

type_synonym markers = "(string \<times> string option) list"

fun boundaries_loop :: "parser \<Rightarrow> string list \<Rightarrow> markers" where
  "boundaries_loop P [] = []"
| "boundaries_loop P (line # lines) =
     (if search (section_pattern P) line
      then dict_set ''stop_marker'' (find (search base_section_pattern) lines)
             (dict_set ''start_marker'' (Some line) [])
      else boundaries_loop P lines)"

definition find_section_boundaries :: "parser \<Rightarrow> page \<Rightarrow> markers option" where
  "find_section_boundaries P pg =
     (let boundaries = boundaries_loop P (map strip (split_lines (get_text pg)))
      in if boundaries \<noteq> [] then Some boundaries else None)"

text \<open>
  \<^verbatim>\<open>
  def _calculate_subsection_bbox(self, page, markers):
      try:
          start_rects = page.search_for(markers["start_marker"])
          stop_rects = page.search_for(markers["stop_marker"])
          if not start_rects or not stop_rects:
              return None
          return pymupdf.Rect(0, start_rects[0].y1, page.rect.width, stop_rects[0].y0)
      except KeyError:
          return None
  \<close>
  \<open>bbox_body\<close> is the body of the \<^verbatim>\<open>try\<close>, in the order of evaluation of the source.
\<close>

definition bbox_body :: "page \<Rightarrow> markers \<Rightarrow> exc + rect option" where
  "bbox_body pg markers =
     (case map_of markers ''start_marker'' of
        None \<Rightarrow> Inl KeyError
      | Some start_marker \<Rightarrow>
          (case search_for pg start_marker of
             Inl e \<Rightarrow> Inl e
           | Inr start_rects \<Rightarrow>
               (case map_of markers ''stop_marker'' of
                  None \<Rightarrow> Inl KeyError
                | Some stop_marker \<Rightarrow>
                    (case search_for pg stop_marker of
                       Inl e \<Rightarrow> Inl e
                     | Inr stop_rects \<Rightarrow>
                         (case (start_rects, stop_rects) of
                            (s # _, t # _) \<Rightarrow>
                              Inr (Some \<lparr>x0 = 0, y0 = y1 s, x1 = rect_width pg, y1 = y0 t\<rparr>)
                          | _ \<Rightarrow> Inr None)))))"

definition calculate_subsection_bbox :: "page \<Rightarrow> markers \<Rightarrow> exc + rect option" where
  "calculate_subsection_bbox pg markers =
     (case bbox_body pg markers of
        Inl e \<Rightarrow> (if e = KeyError then Inr None else Inl e)
      | Inr r \<Rightarrow> Inr r)"

section \<open>Page content\<close>

text \<open>
  \<^verbatim>\<open>
  def _process_page_content(self, page, bbox):
      content = {}
      exclusion_zones = []
      for table in page.find_tables(clip=bbox):
          table_data = self._process_table(table)
          content = self._merge_data(content, table_data)
          exclusion_zones.append(table.bbox)
      for block in page.get_text("blocks", clip=bbox):
          rect = pymupdf.Rect(block[:4])
          text = block[4]
          if not text.strip() or any(rect.intersects(zone) for zone in exclusion_zones):
              continue
          text_data = self._process_text_block(text)
          content = self._merge_data(content, text_data)
      return content
  \<close>
\<close>

fun tables_loop :: "table list \<Rightarrow> dict \<times> rect list \<Rightarrow> exc + dict \<times> rect list" where
  "tables_loop [] st = Inr st"
| "tables_loop (t # ts) (content, exclusion_zones) =
     (case process_table t of
        Inl e \<Rightarrow> Inl e
      | Inr table_data \<Rightarrow>
          tables_loop ts (merge_data content table_data, exclusion_zones @ [table_bbox t]))"

definition block_skipped :: "rect_methods \<Rightarrow> rect list \<Rightarrow> block \<Rightarrow> bool" where
  "block_skipped R exclusion_zones b =
     (strip (block_text b) = [] \<or> list_ex (\<lambda>zone. intersects R (block_rect b) zone) exclusion_zones)"

fun blocks_loop :: "rect_methods \<Rightarrow> rect list \<Rightarrow> block list \<Rightarrow> dict \<Rightarrow> dict" where
  "blocks_loop R exclusion_zones [] content = content"
| "blocks_loop R exclusion_zones (b # bs) content =
     (if block_skipped R exclusion_zones b then blocks_loop R exclusion_zones bs content
      else blocks_loop R exclusion_zones bs (merge_data content (process_text_block (block_text b))))"

definition process_page_content :: "rect_methods \<Rightarrow> page \<Rightarrow> rect \<Rightarrow> exc + dict" where
  "process_page_content R pg bbox =
     (case tables_loop (find_tables pg bbox) ([], []) of
        Inl e \<Rightarrow> Inl e
      | Inr (content, exclusion_zones) \<Rightarrow>
          Inr (blocks_loop R exclusion_zones (get_text_blocks pg bbox) content))"

section \<open>Extraction of a document\<close>

text \<open>
  \<^verbatim>\<open>s.replace(old, '')\<close> for a non-empty \<^verbatim>\<open>old\<close>: its occurrences are removed from left to
  right, without overlap.
\<close>

function remove_all :: "string \<Rightarrow> string \<Rightarrow> string" where
  "remove_all old [] = []"
| "remove_all old (c # cs) =
     (if old \<noteq> [] \<and> take (length old) (c # cs) = old
      then remove_all old (drop (length old) (c # cs))
      else c # remove_all old cs)"
  by pat_completeness auto
termination
  by (relation "measure (\<lambda>(old, s). length s)") auto

text \<open>
  \<^verbatim>\<open>
  def extract_section(self, pdf_path):
      doc = pymupdf.open(pdf_path)
      result = {"name": doc.name.replace('.pdf', '')}
      try:
          for page in doc:
              if not self._compiled_patterns['section'].search(page.get_text()):
                  continue
              markers = self._find_section_boundaries(page)
              if not markers:
                  continue
              bbox = self._calculate_subsection_bbox(page, markers)
              if not bbox:
                  continue
              page_result = self._process_page_content(page, bbox)
              result = self._merge_data(result, page_result)
      finally:
          doc.close()
      return result
  \<close>
  The document is the opened one. An exception leaves the loop and the function: the
  \<^verbatim>\<open>finally\<close> clause closes the document and catches nothing.
\<close>

fun pages_loop :: "rect_methods \<Rightarrow> parser \<Rightarrow> page list \<Rightarrow> dict \<Rightarrow> exc + dict" where
  "pages_loop R P [] result = Inr result"
| "pages_loop R P (pg # pgs) result =
     (if \<not> search (section_pattern P) (get_text pg) then pages_loop R P pgs result
      else (case find_section_boundaries P pg of
              None \<Rightarrow> pages_loop R P pgs result
            | Some markers \<Rightarrow>
                (case calculate_subsection_bbox pg markers of
                   Inl e \<Rightarrow> Inl e
                 | Inr None \<Rightarrow> pages_loop R P pgs result
                 | Inr (Some bbox) \<Rightarrow>
                     (if \<not> rect_bool R bbox then pages_loop R P pgs result
                      else (case process_page_content R pg bbox of
                              Inl e \<Rightarrow> Inl e
                            | Inr page_result \<Rightarrow>
                                pages_loop R P pgs (merge_data result page_result))))))"

definition extract_section :: "rect_methods \<Rightarrow> parser \<Rightarrow> document \<Rightarrow> exc + dict" where
  "extract_section R P doc =
     pages_loop R P (doc_pages doc) [(''name'', Scalar (remove_all ''.pdf'' (doc_name doc)))]"

section \<open>Export and command line\<close>

text \<open>
  \<^verbatim>\<open>
  def export_to_csv(self, data, output_path):
      if not data:
          logger.warning("No data to export")
          return
      headers = list(data.keys())
      max_rows = max((len(v) if isinstance(v, list) else 1 for v in data.values()))
      rows = []
      for row_idx in range(max_rows):
          row = []
          for header in headers:
              value = data[header]
              try:
                  entry = value[row_idx] if isinstance(value, list) else (value if row_idx == 0 else '')
              except IndexError:
                  entry = ''
              row.append(str(entry))
          rows.append(row)
      ... writer.writerow(headers); writer.writerows(rows)
  \<close>
  The file written is its header row and its data rows; \<open>None\<close> when no file is written.
  The keys of a dictionary are distinct, so \<^verbatim>\<open>data[header]\<close> for the headers in turn
  are the values of the items in turn. Writing the file is taken to succeed.
\<close>

definition csv_entry :: "val \<Rightarrow> nat \<Rightarrow> string" where
  "csv_entry v row_idx =
     (case v of
        Sequence l \<Rightarrow> (if row_idx < length l then l ! row_idx else [])
      | Scalar s \<Rightarrow> (if row_idx = 0 then s else []))"

definition export_to_csv :: "dict \<Rightarrow> (string list \<times> string list list) option" where
  "export_to_csv data =
     (if data = [] then None
      else (let headers = keys data;
                max_rows = fold max (map (\<lambda>(k, v). case v of Sequence l \<Rightarrow> length l | Scalar s \<Rightarrow> 1) data) 0;
                rows = map (\<lambda>row_idx. map (\<lambda>(k, v). csv_entry v row_idx) data) [0..<max_rows]
            in Some (headers, rows)))"

text \<open>
  \<^verbatim>\<open>
  def main():
      ...
      try:
          args = parser.parse_args()
          config = yaml.safe_load(args.config.read_text())
          parser = TextPDFParser(config)
          data = parser.extract_section(args.input)
          if data:
              parser.export_to_csv(data, args.output)
              logger.info("Processing completed successfully")
          else:
              logger.error("No data extracted from PDF")
              raise SystemExit(1)
      except Exception as e:
          logger.error(f"Processing failed: {str(e)}")
          raise SystemExit(1)
  \<close>
  The configuration is the loaded one and the document the opened one; the result of
  \<open>main\<close> is the exit code of the process and the file written, if any.
\<close>

definition main :: "rect_methods \<Rightarrow> (string \<times> string) list \<Rightarrow> document
    \<Rightarrow> nat \<times> (string list \<times> string list list) option" where
  "main R config doc =
     (case extract_section R (new_parser config) doc of
        Inl e \<Rightarrow> (1, None)
      | Inr data \<Rightarrow> (if data \<noteq> [] then (0, export_to_csv data) else (1, None)))"

text \<open>
  An instance of the two rectangle methods, for examples: rectangles intersect when they
  share a point inside both, and a rectangle is false when all its coordinates are 0.
\<close>

definition sample_rect_methods :: rect_methods where
  "sample_rect_methods =
     \<lparr>intersects = (\<lambda>r z. max (x0 r) (x0 z) < min (x1 r) (x1 z) \<and> max (y0 r) (y0 z) < min (y1 r) (y1 z)),
      rect_bool = (\<lambda>r. \<not> (x0 r = 0 \<and> y0 r = 0 \<and> x1 r = 0 \<and> y1 r = 0))\<rparr>"

text \<open>
  The file name without its extension, in the words of the specification: the last
  component of the path, up to its last dot when that dot is neither its first nor its
  last character (\<^verbatim>\<open>Path(name).stem\<close>).
\<close>

definition base_name :: "string \<Rightarrow> string" where
  "base_name path = rev (takeWhile (\<lambda>c. c \<noteq> CHR ''/'') (rev path))"

definition file_stem :: "string \<Rightarrow> string" where
  "file_stem path =
     (let name = base_name path;
          suffix = rev (takeWhile (\<lambda>c. c \<noteq> CHR ''.'') (rev name))
      in if CHR ''.'' \<in> set name \<and> suffix \<noteq> [] \<and> Suc (length suffix) < length name
         then take (length name - Suc (length suffix)) name
         else name)"

section \<open>Examples\<close>

text \<open>Pages, tables and blocks used to evaluate the functions on concrete inputs.\<close>

definition ex_page :: page where
  "ex_page =
     \<lparr>get_text = ''Section 14\<newline>Section 15'',
      search_for = (\<lambda>needle.
         if needle = Some ''Section 14'' then Inr [\<lparr>x0 = 50, y0 = 400, x1 = 200, y1 = 415\<rparr>]
         else if needle = Some ''Section 15'' then Inr [\<lparr>x0 = 50, y0 = 100, x1 = 200, y1 = 115\<rparr>]
         else Inr []),
      rect_width = 595,
      find_tables = (\<lambda>clip. []),
      get_text_blocks = (\<lambda>clip. [])\<rparr>"

definition ex_region :: rect where
  "ex_region = \<lparr>x0 = 0, y0 = 115, x1 = 595, y1 = 300\<rparr>"

definition ex_table :: table where
  "ex_table =
     \<lparr>table_extract = Inr [[Some ''Ingredient'', Some ''CAS''], [Some ''Water'', Some ''7732-18-5'']],
      table_bbox = \<lparr>x0 = 50, y0 = 120, x1 = 400, y1 = 160\<rparr>\<rparr>"

definition ex_block_in_table :: block where
  "ex_block_in_table =
     \<lparr>block_rect = \<lparr>x0 = 50, y0 = 120, x1 = 400, y1 = 160\<rparr>,
      block_text = ''Ingredient\<newline>CAS\<newline>Water\<newline>7732-18-5''\<rparr>"

definition ex_block_below :: block where
  "ex_block_below =
     \<lparr>block_rect = \<lparr>x0 = 50, y0 = 200, x1 = 400, y1 = 230\<rparr>,
      block_text = ''Storage\<newline>Keep dry''\<rparr>"

definition ex_table_page :: page where
  "ex_table_page =
     \<lparr>get_text = ''SECTION 14\<newline>Ingredient CAS\<newline>Water 7732-18-5\<newline>Storage\<newline>Keep dry\<newline>Section 15 - Other Info'',
      search_for = (\<lambda>needle.
         if needle = Some ''SECTION 14'' then Inr [\<lparr>x0 = 50, y0 = 100, x1 = 200, y1 = 115\<rparr>]
         else if needle = Some ''Section 15 - Other Info''
           then Inr [\<lparr>x0 = 50, y0 = 300, x1 = 200, y1 = 315\<rparr>]
         else Inr []),
      rect_width = 595,
      find_tables = (\<lambda>clip. [ex_table]),
      get_text_blocks = (\<lambda>clip. [ex_block_in_table, ex_block_below])\<rparr>"

definition ex_doc :: document where
  "ex_doc = \<lparr>doc_name = ''sheet.pdf'', doc_pages = [ex_table_page]\<rparr>"

definition ex_plain_page :: page where
  "ex_plain_page =
     \<lparr>get_text = ''Product identification\<newline>Acme solvent'',
      search_for = (\<lambda>needle. Inr []),
      rect_width = 595,
      find_tables = (\<lambda>clip. []),
      get_text_blocks = (\<lambda>clip. [])\<rparr>"

definition ex_no_section_doc :: document where
  "ex_no_section_doc = \<lparr>doc_name = ''report.pdf'', doc_pages = [ex_plain_page]\<rparr>"

section \<open>Properties of the merger\<close>

lemma map_of_dict_set: "map_of (dict_set k v d) = (map_of d)(k \<mapsto> v)"
  by (induction d) auto

lemma merge_data_append:
  "merge_data existing (pre @ post) = merge_data (merge_data existing pre) post"
  by (induction pre arbitrary: existing) auto

lemma merge_data_snoc:
  "merge_data existing (pre @ [(key, value)]) = merge_item (merge_data existing pre) key value"
  by (simp add: merge_data_append)

text \<open>
  C1. \<^verbatim>\<open>_merge_data(existing, new)\<close> handles the items of \<open>new\<close> in order. When the item
  \<open>(key, value)\<close> is reached, with \<open>acc\<close> the accumulator at that moment and \<open>acc'\<close> the
  accumulator after the item: a key absent from \<open>acc\<close> is inserted with the value as it
  is; a list under the key is extended by an incoming list, in order, its length being
  the sum of the two lengths; an incoming scalar is appended to a list under the key;
  and when the key holds a scalar, that scalar stays and the incoming value is stored
  under \<open>key_conflict\<close>, replacing whatever was there. No other key changes.
\<close>

theorem merge_data_each_item:
  "merge_data existing (pre @ (key, value) # post) =
     merge_data (merge_data existing (pre @ [(key, value)])) post
   \<and> (map_of (merge_data existing pre) key = None \<longrightarrow>
        map_of (merge_data existing (pre @ [(key, value)])) =
          (map_of (merge_data existing pre))(key \<mapsto> value))
   \<and> (\<forall>xs ys. map_of (merge_data existing pre) key = Some (Sequence xs) \<and> value = Sequence ys \<longrightarrow>
        map_of (merge_data existing (pre @ [(key, value)])) =
          (map_of (merge_data existing pre))(key \<mapsto> Sequence (xs @ ys))
        \<and> length (xs @ ys) = length xs + length ys)
   \<and> (\<forall>xs s. map_of (merge_data existing pre) key = Some (Sequence xs) \<and> value = Scalar s \<longrightarrow>
        map_of (merge_data existing (pre @ [(key, value)])) =
          (map_of (merge_data existing pre))(key \<mapsto> Sequence (xs @ [s])))
   \<and> (\<forall>a. map_of (merge_data existing pre) key = Some (Scalar a) \<longrightarrow>
        map_of (merge_data existing (pre @ [(key, value)])) =
          (map_of (merge_data existing pre))(key @ ''_conflict'' \<mapsto> value)
        \<and> map_of (merge_data existing (pre @ [(key, value)])) key = Some (Scalar a))"
proof -
  have split: "merge_data existing (pre @ (key, value) # post) =
      merge_data (merge_data existing (pre @ [(key, value)])) post"
    by (simp add: merge_data_append)
  have step: "merge_data existing (pre @ [(key, value)]) =
      merge_item (merge_data existing pre) key value"
    by (rule merge_data_snoc)
  show ?thesis
    unfolding step
    using split [unfolded step]
    by (auto simp: merge_item_def map_of_dict_set)
qed

theorem merge_data_each_item_witness:
  "merge_data (merge_data [] [(''X'', Scalar ''a'')]) [(''X'', Scalar ''b'')] =
     [(''X'', Scalar ''a''), (''X_conflict'', Scalar ''b'')]
   \<and> map_of (merge_data [(''X'', Scalar ''a'')] [(''X'', Scalar ''b'')]) =
       (map_of [(''X'', Scalar ''a'')])(''X_conflict'' \<mapsto> Scalar ''b'')
   \<and> map_of (merge_data [(''T'', Sequence [''1''])] [(''T'', Sequence [''2'', ''3''])]) =
       (map_of [(''T'', Sequence [''1''])])(''T'' \<mapsto> Sequence [''1'', ''2'', ''3''])"
  using merge_data_each_item [of "[(''X'', Scalar ''a'')]" "[]" "''X''" "Scalar ''b''" "[]"]
    merge_data_each_item [of "[(''T'', Sequence [''1''])]" "[]" "''T''" "Sequence [''2'', ''3'']" "[]"]
  by (simp add: merge_item_def)

lemma merge_item_list_grows:
  assumes "key @ ''_conflict'' \<noteq> K" and "map_of existing K = Some (Sequence xs)"
  shows "\<exists>zs. map_of (merge_item existing key value) K = Some (Sequence (xs @ zs))"
proof (cases "key = K")
  case True
  with assms(2) show ?thesis
    by (cases "value") (simp_all add: merge_item_def map_of_dict_set)
next
  case False
  with assms show ?thesis
    by (auto simp: merge_item_def map_of_dict_set split: option.splits val.splits)
qed

lemma merge_data_list_grows:
  assumes "\<forall>k \<in> set (keys new). k @ ''_conflict'' \<noteq> K"
    and "map_of existing K = Some (Sequence xs)"
  shows "\<exists>zs. map_of (merge_data existing new) K = Some (Sequence (xs @ zs))"
  using assms
proof (induction new arbitrary: existing xs)
  case Nil
  then show ?case by simp
next
  case (Cons kv new)
  obtain key "value" where kv: "kv = (key, value)" by (cases kv)
  from Cons.prems kv have "key @ ''_conflict'' \<noteq> K"
    by (simp add: keys_def)
  from merge_item_list_grows [OF this Cons.prems(2)]
  obtain zs where zs: "map_of (merge_item existing key value) K = Some (Sequence (xs @ zs))"
    by blast
  from Cons.prems(1) have "\<forall>k \<in> set (keys new). k @ ''_conflict'' \<noteq> K"
    by (simp add: keys_def)
  from Cons.IH [OF this zs]
  obtain zs' where "map_of (merge_data (merge_item existing key value) new) K =
      Some (Sequence ((xs @ zs) @ zs'))"
    by blast
  then show ?case
    by (simp add: kv)
qed

text \<open>
  C4, as the code has it. Through any sequence of merges into a record, a key that
  holds a list keeps a list of which the earlier list is a prefix, as long as the key is
  not the derived key \<open>k_conflict\<close> of a key \<open>k\<close> of one of the merged fragments.
\<close>

theorem merge_data_sequence_list_grows:
  assumes "\<forall>new \<in> set news. \<forall>k \<in> set (keys new). k @ ''_conflict'' \<noteq> K"
    and "map_of existing K = Some (Sequence xs)"
  shows "\<exists>zs. map_of (foldl merge_data existing news) K = Some (Sequence (xs @ zs))"
  using assms
proof (induction news arbitrary: existing xs)
  case Nil
  then show ?case by simp
next
  case (Cons new news)
  from Cons.prems have "\<forall>k \<in> set (keys new). k @ ''_conflict'' \<noteq> K"
    by simp
  from merge_data_list_grows [OF this Cons.prems(2)]
  obtain zs where zs: "map_of (merge_data existing new) K = Some (Sequence (xs @ zs))"
    by blast
  from Cons.prems(1) have "\<forall>new \<in> set news. \<forall>k \<in> set (keys new). k @ ''_conflict'' \<noteq> K"
    by simp
  from Cons.IH [OF this zs]
  obtain zs' where "map_of (foldl merge_data (merge_data existing new) news) K =
      Some (Sequence ((xs @ zs) @ zs'))"
    by blast
  then show ?case
    by simp
qed

theorem merge_data_sequence_list_grows_witness:
  "map_of [(''name'', Scalar ''doc''), (''CAS'', Sequence [''7732-18-5''])] ''CAS'' =
       Some (Sequence [''7732-18-5''])
   \<and> map_of (foldl merge_data [(''name'', Scalar ''doc''), (''CAS'', Sequence [''7732-18-5''])]
        [[(''CAS'', Sequence [''64-17-5''])], [(''CAS'', Scalar ''n/a'')]]) ''CAS'' =
       Some (Sequence ([''7732-18-5''] @ [''64-17-5'', ''n/a'']))"
proof -
  have h1: "\<forall>new \<in> set [[(''CAS'', Sequence [''64-17-5''])], [(''CAS'', Scalar ''n/a'')]].
      \<forall>k \<in> set (keys new). k @ ''_conflict'' \<noteq> ''CAS''"
    by (simp add: keys_def)
  have h2: "map_of [(''name'', Scalar ''doc''), (''CAS'', Sequence [''7732-18-5''])] ''CAS'' =
       Some (Sequence [''7732-18-5''])"
    by simp
  from merge_data_sequence_list_grows [OF h1 h2] h2 show ?thesis
    by (simp add: merge_item_def)
qed

text \<open>
  C4, as the specification states it, fails: the record of a document whose pages give
  \<open>X\<close> first as text, then as a table column, then as text again holds a list under
  \<open>X_conflict\<close> after the second page and a string after the third.
\<close>

theorem merge_data_list_replaced_counterexample:
  "map_of (foldl merge_data [(''name'', Scalar ''doc'')]
       [[(''X'', Scalar ''a'')], [(''X'', Sequence [''p'', ''q''])]]) ''X_conflict'' =
     Some (Sequence [''p'', ''q''])
   \<and> map_of (merge_data
        (foldl merge_data [(''name'', Scalar ''doc'')]
           [[(''X'', Scalar ''a'')], [(''X'', Sequence [''p'', ''q''])]])
        [(''X'', Scalar ''b'')]) ''X_conflict'' =
     Some (Scalar ''b'')"
  by (simp add: merge_item_def)

section \<open>Properties of whitespace normalisation and text blocks\<close>


lemma pair_lines_pairs:
  "even i \<Longrightarrow> \<forall>l \<in> set lines. l \<noteq> [] \<Longrightarrow>
     pair_lines i lines (d, None) =
       (assign_pairs d (line_pairs lines), if odd (length lines) then Some (last lines) else None)"
proof (induction lines arbitrary: i d rule: line_pairs.induct)
  case (1 k v rest)
  from \<open>even i\<close> have i0: "i mod 2 = 0" and i1: "Suc i mod 2 \<noteq> 0"
    by presburger+
  from 1 have k: "k \<noteq> []" and rest: "\<forall>l \<in> set rest. l \<noteq> []"
    by simp_all
  from \<open>even i\<close> have "even (Suc (Suc i))" by simp
  from "1.IH" [OF this rest]
  have IH: "pair_lines (Suc (Suc i)) rest (dict_set k (Scalar v) d, None) =
      (assign_pairs (dict_set k (Scalar v) d) (line_pairs rest),
       if odd (length rest) then Some (last rest) else None)" .
  have "pair_lines i (k # v # rest) (d, None) =
      pair_lines (Suc (Suc i)) rest (dict_set k (Scalar v) d, None)"
    using i0 i1 k by simp
  with IH show ?case
    by (simp add: assign_pairs_def)
next
  case 3
  then show ?case by (simp add: assign_pairs_def)
next
  case (2 k)
  from \<open>even i\<close> have "i mod 2 = 0" by presburger
  then show ?case by (simp add: assign_pairs_def)
qed

lemma text_lines_nonempty: "\<forall>l \<in> set (text_lines text). l \<noteq> []"
  by (simp add: text_lines_def)

lemma process_text_block_paired: "process_text_block text = paired_fragment (text_lines text)"
  by (simp add: process_text_block_def paired_fragment_def pair_lines_pairs text_lines_nonempty Let_def)

lemma keys_dict_set: "set (keys (dict_set k v d)) = insert k (set (keys d))"
  unfolding keys_def by (induction d) force+

lemma map_of_assign_pairs:
  "map_of (assign_pairs d ps) k =
     (case map_of (rev ps) k of Some v \<Rightarrow> Some (Scalar v) | None \<Rightarrow> map_of d k)"
  unfolding assign_pairs_def
  by (induction ps arbitrary: d) (auto simp: map_of_dict_set split: option.splits)

lemma keys_assign_pairs: "set (keys (assign_pairs d ps)) = set (keys d) \<union> fst ` set ps"
  unfolding assign_pairs_def
  by (induction ps arbitrary: d) (auto simp: keys_dict_set)

lemma length_line_pairs: "length (line_pairs ls) = length ls div 2"
  by (induction ls rule: line_pairs.induct) auto

lemma nth_line_pairs:
  "m < length ls div 2 \<Longrightarrow> line_pairs ls ! m = (ls ! (2 * m), ls ! Suc (2 * m))"
proof (induction ls arbitrary: m rule: line_pairs.induct)
  case (1 k v rest)
  then show ?case by (cases m) auto
qed auto

lemma map_of_rev_last:
  "m < length ps \<Longrightarrow> fst (ps ! m) = k \<Longrightarrow>
   \<forall>m'. m < m' \<and> m' < length ps \<longrightarrow> fst (ps ! m') \<noteq> k \<Longrightarrow>
   map_of (rev ps) k = Some (snd (ps ! m))"
proof (induction ps rule: rev_induct)
  case Nil
  then show ?case by simp
next
  case (snoc p qs)
  show ?case
  proof (cases "m = length qs")
    case True
    with snoc.prems(2) show ?thesis
      by (cases p) auto
  next
    case False
    with snoc.prems(1) have m: "m < length qs" by simp
    with snoc.prems(3) [rule_format, of "length qs"] have "fst ((qs @ [p]) ! length qs) \<noteq> k"
      by simp
    then have p: "fst p \<noteq> k" by simp
    from snoc.prems(2) m have a: "fst (qs ! m) = k"
      by (simp add: nth_append)
    have b: "\<forall>m'. m < m' \<and> m' < length qs \<longrightarrow> fst (qs ! m') \<noteq> k"
    proof (intro allI impI)
      fix m' assume h: "m < m' \<and> m' < length qs"
      with snoc.prems(3) have "fst ((qs @ [p]) ! m') \<noteq> k" by simp
      with h show "fst (qs ! m') \<noteq> k" by (simp add: nth_append)
    qed
    from snoc.IH [OF m a b] p m show ?thesis
      by (cases p) (auto simp: nth_append)
  qed
qed

lemma is_space_space: "is_space (CHR '' '')"
  by (simp add: is_space_def whitespace_def)

lemma collapse_ws_dropWhile:
  "collapse_ws (dropWhile is_space s) = dropWhile is_space (collapse_ws s)"
  by (induction s rule: collapse_ws.induct) (auto simp: is_space_space)


lemma rstrip_Cons:
  "rstrip (c # cs) = (if (\<forall>x \<in> set cs. is_space x) \<and> is_space c then [] else c # rstrip cs)"
  by (auto simp: rstrip_def dropWhile_append)

lemma rstrip_all_space: "\<forall>x \<in> set s. is_space x \<Longrightarrow> rstrip s = []"
  by (simp add: rstrip_def)

lemma all_dropWhile: "(\<forall>x \<in> set (dropWhile P xs). P x) \<longleftrightarrow> (\<forall>x \<in> set xs. P x)"
  by (induction xs) auto

lemma rstrip_dropWhile: "dropWhile is_space (rstrip s) = rstrip (dropWhile is_space s)"
proof (induction s)
  case Nil
  then show ?case by (simp add: rstrip_def)
next
  case (Cons c cs)
  show ?case
  proof (cases "is_space c")
    case True
    then show ?thesis
      using Cons by (auto simp: rstrip_Cons rstrip_all_space all_dropWhile)
  next
    case False
    then show ?thesis by (simp add: rstrip_Cons)
  qed
qed

lemma all_space_collapse:
  "(\<forall>x \<in> set (collapse_ws s). is_space x) \<longleftrightarrow> (\<forall>x \<in> set s. is_space x)"
proof (induction s rule: collapse_ws.induct)
  case 1
  then show ?case by simp
next
  case (2 c cs)
  show ?case
  proof (cases "is_space c")
    case True
    with 2 show ?thesis
      by (simp add: is_space_space all_dropWhile)
  next
    case False
    then show ?thesis by simp
  qed
qed

lemma collapse_ws_rstrip: "collapse_ws (rstrip s) = rstrip (collapse_ws s)"
proof (induction s rule: collapse_ws.induct)
  case 1
  then show ?case by (simp add: rstrip_def)
next
  case (2 c cs)
  show ?case
  proof (cases "is_space c")
    case False
    with 2 show ?thesis
      by (simp add: rstrip_Cons)
  next
    case True
    note sp = this
    show ?thesis
    proof (cases "\<forall>x \<in> set cs. is_space x")
      case True
      then have "dropWhile is_space cs = []" by simp
      with sp True show ?thesis
        by (simp add: rstrip_Cons is_space_space all_space_collapse all_dropWhile)
    next
      case False
      then have ns: "\<not> (\<forall>x \<in> set (collapse_ws (dropWhile is_space cs)). is_space x)"
        by (simp add: all_space_collapse all_dropWhile)
      from sp False have "collapse_ws (rstrip (c # cs)) =
          CHR '' '' # collapse_ws (rstrip (dropWhile is_space cs))"
        by (simp add: rstrip_Cons rstrip_dropWhile)
      also from 2(1) [OF sp] have "\<dots> = CHR '' '' # rstrip (collapse_ws (dropWhile is_space cs))"
        by simp
      also from ns sp have "\<dots> = rstrip (collapse_ws (c # cs))"
        by (simp add: rstrip_Cons)
      finally show ?thesis .
    qed
  qed
qed

lemma collapse_ws_strip: "collapse_ws (strip s) = strip (collapse_ws s)"
proof -
  have "strip s = rstrip (dropWhile is_space s)" for s
    by (simp add: strip_def rstrip_def)
  then show ?thesis
    by (simp add: collapse_ws_rstrip collapse_ws_dropWhile)
qed


lemma even_index_set_step:
  "{(k # v # rest) ! j | j. even j \<and> j < length (k # v # rest)} =
     insert k {rest ! j | j. even j \<and> j < length rest}"
proof (intro set_eqI iffI)
  fix x assume "x \<in> {(k # v # rest) ! j | j. even j \<and> j < length (k # v # rest)}"
  then obtain j where j: "x = (k # v # rest) ! j" "even j" "j < length (k # v # rest)"
    by blast
  show "x \<in> insert k {rest ! j | j. even j \<and> j < length rest}"
  proof (cases j)
    case 0
    with j show ?thesis by simp
  next
    case (Suc j1)
    with j obtain j2 where "j1 = Suc j2" by (cases j1) auto
    with Suc j show ?thesis by auto
  qed
next
  fix x assume "x \<in> insert k {rest ! j | j. even j \<and> j < length rest}"
  then consider "x = k" | j where "x = rest ! j" "even j" "j < length rest"
    by blast
  then show "x \<in> {(k # v # rest) ! j | j. even j \<and> j < length (k # v # rest)}"
  proof cases
    case 1
    then have "x = (k # v # rest) ! 0 \<and> even (0::nat) \<and> 0 < length (k # v # rest)" by simp
    then show ?thesis by blast
  next
    case 2
    then have "x = (k # v # rest) ! Suc (Suc j) \<and> even (Suc (Suc j)) \<and> Suc (Suc j) < length (k # v # rest)"
      by simp
    then show ?thesis by blast
  qed
qed

lemma keys_line_pairs:
  "fst ` set (line_pairs ls) \<union> (if odd (length ls) then {last ls} else {}) =
     {ls ! j | j. even j \<and> j < length ls}"
proof (induction ls rule: line_pairs.induct)
  case (1 k v rest)
  have "last (k # v # rest) = (if rest = [] then v else last rest)" by simp
  moreover have "rest = [] \<Longrightarrow> even (length rest)" by simp
  ultimately show ?case
    using 1 unfolding even_index_set_step by auto
next
  case 3
  then show ?case by simp
next
  case (2 k)
  have "{[k] ! j | j. even j \<and> j < length [k]} = {k}" by auto
  then show ?case by simp
qed

lemma keys_paired_fragment:
  "set (keys (paired_fragment ls)) = {ls ! j | j. even j \<and> j < length ls}"
proof -
  have "keys ([] :: dict) = []" by (simp add: keys_def)
  then have "set (keys (paired_fragment ls)) =
      fst ` set (line_pairs ls) \<union> (if odd (length ls) then {last ls} else {})"
    by (auto simp: paired_fragment_def Let_def keys_dict_set keys_assign_pairs)
  then show ?thesis by (simp only: keys_line_pairs)
qed

lemma paired_fragment_last_pair:
  assumes "even i" and "Suc i < length ls" and "ls ! i = k"
    and "\<forall>j. even j \<and> i < j \<and> Suc j < length ls \<longrightarrow> ls ! j \<noteq> k"
  shows "map_of (paired_fragment ls) k = Some (Scalar (ls ! Suc i))"
proof -
  define m where "m = i div 2"
  define ps where "ps = line_pairs ls"
  from assms(1) have i: "i = 2 * m" by (simp add: m_def)
  from assms(2) i have m: "m < length ls div 2" by simp
  then have mps: "m < length ps" by (simp add: ps_def length_line_pairs)
  from nth_line_pairs [OF m] i have nth: "ps ! m = (ls ! i, ls ! Suc i)"
    by (simp add: ps_def)
  have later: "\<forall>m'. m < m' \<and> m' < length ps \<longrightarrow> fst (ps ! m') \<noteq> k"
  proof (intro allI impI)
    fix m' assume h: "m < m' \<and> m' < length ps"
    then have m': "m' < length ls div 2" by (simp add: ps_def length_line_pairs)
    from nth_line_pairs [OF m'] have "fst (ps ! m') = ls ! (2 * m')" by (simp add: ps_def)
    moreover from h m' i have "even (2 * m') \<and> i < 2 * m' \<and> Suc (2 * m') < length ls"
      by auto
    ultimately show "fst (ps ! m') \<noteq> k" using assms(4) by simp
  qed
  from nth assms(3) have "fst (ps ! m) = k" by simp
  from map_of_rev_last [OF mps this later] nth
  have rv: "map_of (rev ps) k = Some (ls ! Suc i)" by simp
  then have d: "map_of (assign_pairs [] ps) k = Some (Scalar (ls ! Suc i))"
    by (simp add: map_of_assign_pairs)
  from mps nth assms(3) have "k \<in> fst ` set ps"
    by (metis fst_conv image_eqI nth_mem)
  then have kin: "k \<in> set (keys (assign_pairs [] ps))"
    by (simp add: keys_assign_pairs)
  show ?thesis
    using d kin
    by (auto simp: paired_fragment_def Let_def ps_def map_of_dict_set)
qed

text \<open>
  C5. \<^verbatim>\<open>_process_text_block\<close> splits the text at line feeds, normalises the whitespace
  of every line (runs collapsed to one space, ends trimmed: the rule of
  \<^verbatim>\<open>_clean_table_cell\<close>), drops the empty lines and pairs the rest in order: the line at
  index \<open>2m\<close> is a key and the line at index \<open>2m + 1\<close> its value. A last line without
  a value is added with the empty string unless its key is already there. The lines
  \<^verbatim>\<open>Name\<close>, \<^verbatim>\<open>Acme\<close>, \<^verbatim>\<open>Date\<close> give \<^verbatim>\<open>{"Name": "Acme", "Date": ""}\<close>.
\<close>

theorem process_text_block_pairs:
  "text_lines text = filter (\<lambda>line. line \<noteq> []) (map clean_table_cell (split_lines text))
   \<and> process_text_block text = paired_fragment (text_lines text)
   \<and> length (line_pairs (text_lines text)) = length (text_lines text) div 2
   \<and> (\<forall>m < length (text_lines text) div 2.
        line_pairs (text_lines text) ! m =
          (text_lines text ! (2 * m), text_lines text ! Suc (2 * m)))
   \<and> process_text_block ''Name\<newline>Acme\<newline>Date'' =
       [(''Name'', Scalar ''Acme''), (''Date'', Scalar '''')]"
proof -
  have ex: "process_text_block ''Name\<newline>Acme\<newline>Date'' =
       [(''Name'', Scalar ''Acme''), (''Date'', Scalar '''')]"
    by (simp add: process_text_block_def text_lines_def strip_def is_space_def whitespace_def
        keys_def)
  have "clean_table_cell = (\<lambda>line. collapse_ws (strip line))"
    by (rule ext) (simp add: clean_table_cell_def collapse_ws_strip)
  then have norm: "text_lines text =
      filter (\<lambda>line. line \<noteq> []) (map clean_table_cell (split_lines text))"
    by (simp add: text_lines_def)
  show ?thesis
    using ex norm process_text_block_paired [of "text"] length_line_pairs nth_line_pairs
    by blast
qed

theorem process_text_block_pairs_witness:
  "text_lines ''Name\<newline>  Acme   Corp \<newline>\<newline>Date'' = [''Name'', ''Acme Corp'', ''Date'']
   \<and> line_pairs (text_lines ''Name\<newline>  Acme   Corp \<newline>\<newline>Date'') ! 0 = (''Name'', ''Acme Corp'')
   \<and> process_text_block ''Name\<newline>  Acme   Corp \<newline>\<newline>Date'' =
       [(''Name'', Scalar ''Acme Corp''), (''Date'', Scalar '''')]"
proof -
  have tl: "text_lines ''Name\<newline>  Acme   Corp \<newline>\<newline>Date'' = [''Name'', ''Acme Corp'', ''Date'']"
    by (simp add: text_lines_def strip_def is_space_def whitespace_def)
  have pf: "paired_fragment [''Name'', ''Acme Corp'', ''Date''] =
      [(''Name'', Scalar ''Acme Corp''), (''Date'', Scalar '''')]"
    by (simp add: paired_fragment_def assign_pairs_def keys_def)
  note t = process_text_block_pairs [of "''Name\<newline>  Acme   Corp \<newline>\<newline>Date''"]
  from t have "process_text_block ''Name\<newline>  Acme   Corp \<newline>\<newline>Date'' = paired_fragment (text_lines ''Name\<newline>  Acme   Corp \<newline>\<newline>Date'')"
    by blast
  then have p: "process_text_block ''Name\<newline>  Acme   Corp \<newline>\<newline>Date'' =
      [(''Name'', Scalar ''Acme Corp''), (''Date'', Scalar '''')]"
    by (simp only: tl pf)
  from t have "\<forall>m < length (text_lines ''Name\<newline>  Acme   Corp \<newline>\<newline>Date'') div 2.
        line_pairs (text_lines ''Name\<newline>  Acme   Corp \<newline>\<newline>Date'') ! m =
          (text_lines ''Name\<newline>  Acme   Corp \<newline>\<newline>Date'' ! (2 * m), text_lines ''Name\<newline>  Acme   Corp \<newline>\<newline>Date'' ! Suc (2 * m))"
    by blast
  then have "0 < length (text_lines ''Name\<newline>  Acme   Corp \<newline>\<newline>Date'') div 2 \<longrightarrow>
        line_pairs (text_lines ''Name\<newline>  Acme   Corp \<newline>\<newline>Date'') ! 0 =
          (text_lines ''Name\<newline>  Acme   Corp \<newline>\<newline>Date'' ! (2 * 0), text_lines ''Name\<newline>  Acme   Corp \<newline>\<newline>Date'' ! Suc (2 * 0))"
    by blast
  then have q: "line_pairs (text_lines ''Name\<newline>  Acme   Corp \<newline>\<newline>Date'') ! 0 = (''Name'', ''Acme Corp'')"
    by (simp only: tl) simp
  from tl p q show ?thesis by (intro conjI)
qed

text \<open>
  C10. Within one text block, when a line occurs as a key of several pairs, the value
  of the fragment under that key is the value of the last of these pairs: the later
  assignment replaces the earlier one. The keys of the fragment are the lines at even
  indices and nothing else, so no \<open>_conflict\<close> key is derived.
\<close>

theorem process_text_block_last_pair_wins:
  assumes "ls = text_lines text" and "even i" and "Suc i < length ls" and "ls ! i = k"
    and "\<forall>j. even j \<and> i < j \<and> Suc j < length ls \<longrightarrow> ls ! j \<noteq> k"
  shows "map_of (process_text_block text) k = Some (Scalar (ls ! Suc i))
    \<and> set (keys (process_text_block text)) = {ls ! j | j. even j \<and> j < length ls}"
  using assms paired_fragment_last_pair [of i ls k]
  by (simp add: process_text_block_paired keys_paired_fragment)


theorem process_text_block_last_pair_wins_witness:
  "text_lines ''Unit\<newline>kg\<newline>Unit\<newline>g'' = [''Unit'', ''kg'', ''Unit'', ''g'']
   \<and> map_of (process_text_block ''Unit\<newline>kg\<newline>Unit\<newline>g'') ''Unit'' = Some (Scalar ''g'')
   \<and> ''Unit_conflict'' \<notin> set (keys (process_text_block ''Unit\<newline>kg\<newline>Unit\<newline>g''))"
proof -
  have tl: "[''Unit'', ''kg'', ''Unit'', ''g''] = text_lines ''Unit\<newline>kg\<newline>Unit\<newline>g''"
    by (simp add: text_lines_def strip_def is_space_def whitespace_def)
  have h2: "even (2::nat)" by simp
  have h3: "Suc 2 < length [''Unit'', ''kg'', ''Unit'', ''g'']" by simp
  have h4: "[''Unit'', ''kg'', ''Unit'', ''g''] ! 2 = ''Unit''" by simp
  have h5: "\<forall>j. even j \<and> 2 < j \<and> Suc j < length [''Unit'', ''kg'', ''Unit'', ''g''] \<longrightarrow>
      [''Unit'', ''kg'', ''Unit'', ''g''] ! j \<noteq> ''Unit''"
    by simp
  have nk: "''Unit_conflict'' \<notin> {[''Unit'', ''kg'', ''Unit'', ''g''] ! j | j. even j \<and> j < length [''Unit'', ''kg'', ''Unit'', ''g'']}"
  proof
    assume "''Unit_conflict'' \<in> {[''Unit'', ''kg'', ''Unit'', ''g''] ! j | j. even j \<and> j < length [''Unit'', ''kg'', ''Unit'', ''g'']}"
    then obtain j where "j < length [''Unit'', ''kg'', ''Unit'', ''g'']"
      and "''Unit_conflict'' = [''Unit'', ''kg'', ''Unit'', ''g''] ! j"
      by blast
    then have "''Unit_conflict'' \<in> set [''Unit'', ''kg'', ''Unit'', ''g'']"
      by (metis nth_mem)
    then show False
      by simp
  qed
  from process_text_block_last_pair_wins [OF tl h2 h3 h4 h5] tl [symmetric] nk
  show ?thesis by simp
qed

section \<open>Properties of tables\<close>











section \<open>Properties of the region and of page content\<close>

text \<open>
  C7. When both markers are there and both searches return, \<^verbatim>\<open>_calculate_subsection_bbox\<close>
  returns none if one of the searches found no rectangle, and otherwise the rectangle
  from the left edge \<open>0\<close> to the width of the page, from the bottom edge \<open>y1\<close> of the
  first rectangle of the start marker to the top edge \<open>y0\<close> of the first rectangle of the
  stop marker. Nothing is asked of the order of the two edges: in the example the stop
  marker stands above the start marker and the region is returned all the same.
\<close>

theorem calculate_subsection_bbox_region:
  assumes "map_of markers ''start_marker'' = Some start_marker"
    and "map_of markers ''stop_marker'' = Some stop_marker"
    and "search_for pg start_marker = Inr start_rects"
    and "search_for pg stop_marker = Inr stop_rects"
  shows "calculate_subsection_bbox pg markers =
     Inr (if start_rects = [] \<or> stop_rects = [] then None
          else Some \<lparr>x0 = 0, y0 = y1 (hd start_rects), x1 = rect_width pg,
                      y1 = y0 (hd stop_rects)\<rparr>)"
  using assms
  by (cases start_rects; cases stop_rects)
     (simp_all add: calculate_subsection_bbox_def bbox_body_def)

theorem calculate_subsection_bbox_region_witness:
  "calculate_subsection_bbox ex_page
      [(''start_marker'', Some ''Section 14''), (''stop_marker'', Some ''Section 15'')] =
     Inr (Some \<lparr>x0 = 0, y0 = 415, x1 = 595, y1 = 100\<rparr>)
   \<and> calculate_subsection_bbox ex_page
      [(''start_marker'', Some ''Section 14''), (''stop_marker'', Some ''Section 16'')] = Inr None"
proof -
  have a: "map_of [(''start_marker'', Some ''Section 14''), (''stop_marker'', Some ''Section 15'')]
      ''start_marker'' = Some (Some ''Section 14'')" by simp
  have b: "map_of [(''start_marker'', Some ''Section 14''), (''stop_marker'', Some ''Section 15'')]
      ''stop_marker'' = Some (Some ''Section 15'')" by simp
  have c: "search_for ex_page (Some ''Section 14'') = Inr [\<lparr>x0 = 50, y0 = 400, x1 = 200, y1 = 415\<rparr>]"
    by (simp add: ex_page_def)
  have d: "search_for ex_page (Some ''Section 15'') = Inr [\<lparr>x0 = 50, y0 = 100, x1 = 200, y1 = 115\<rparr>]"
    by (simp add: ex_page_def)
  have w: "rect_width ex_page = 595" by (simp add: ex_page_def)
  have a': "map_of [(''start_marker'', Some ''Section 14''), (''stop_marker'', Some ''Section 16'')]
      ''start_marker'' = Some (Some ''Section 14'')" by simp
  have b': "map_of [(''start_marker'', Some ''Section 14''), (''stop_marker'', Some ''Section 16'')]
      ''stop_marker'' = Some (Some ''Section 16'')" by simp
  have d': "search_for ex_page (Some ''Section 16'') = Inr []"
    by (simp add: ex_page_def)
  from calculate_subsection_bbox_region [OF a b c d] w
  have "calculate_subsection_bbox ex_page
      [(''start_marker'', Some ''Section 14''), (''stop_marker'', Some ''Section 15'')] =
     Inr (Some \<lparr>x0 = 0, y0 = 415, x1 = 595, y1 = 100\<rparr>)"
    by simp
  moreover from calculate_subsection_bbox_region [OF a' b' c d']
  have "calculate_subsection_bbox ex_page
      [(''start_marker'', Some ''Section 14''), (''stop_marker'', Some ''Section 16'')] = Inr None"
    by simp
  ultimately show ?thesis by (intro conjI)
qed

lemma tables_loop_zones:
  "tables_loop ts (content, zones) = Inr (content', zones') \<Longrightarrow>
     zones' = zones @ map table_bbox ts"
proof (induction ts arbitrary: content zones)
  case Nil
  then show ?case by simp
next
  case (Cons t ts)
  show ?case
  proof (cases "process_table t")
    case (Inl e)
    with Cons.prems show ?thesis by simp
  next
    case (Inr table_data)
    with Cons.prems
    have "tables_loop ts (merge_data content table_data, zones @ [table_bbox t]) =
        Inr (content', zones')"
      by simp
    from Cons.IH [OF this] show ?thesis by simp
  qed
qed

lemma blocks_loop_append:
  "blocks_loop R zones (pre @ post) content =
     blocks_loop R zones post (blocks_loop R zones pre content)"
  by (induction pre arbitrary: content) auto

lemma blocks_loop_skip:
  "block_skipped R zones b \<Longrightarrow>
     blocks_loop R zones (pre @ b # post) content = blocks_loop R zones (pre @ post) content"
  by (simp add: blocks_loop_append)

text \<open>
  C8. A text block whose rectangle intersects the bounding box of a table found in the
  region contributes nothing: \<^verbatim>\<open>_process_page_content\<close> returns what it returns for the
  page without that block, whatever the text of the block.
\<close>

theorem process_page_content_table_precedence:
  assumes "get_text_blocks pg bbox = pre @ b # post"
    and "\<exists>t \<in> set (find_tables pg bbox). intersects R (block_rect b) (table_bbox t)"
  shows "process_page_content R pg bbox =
     process_page_content R (pg\<lparr>get_text_blocks := (get_text_blocks pg)(bbox := pre @ post)\<rparr>) bbox"
proof (cases "tables_loop (find_tables pg bbox) ([], [])")
  case (Inl e)
  then show ?thesis
    by (simp add: process_page_content_def)
next
  case (Inr st)
  obtain content zones where st: "st = (content, zones)" by (cases st)
  from Inr st tables_loop_zones [of "find_tables pg bbox" "[]" "[]" content zones]
  have "zones = map table_bbox (find_tables pg bbox)" by simp
  with assms(2) have "block_skipped R zones b"
    by (auto simp: block_skipped_def list_ex_iff)
  from blocks_loop_skip [OF this] Inr st assms(1) show ?thesis
    by (simp add: process_page_content_def)
qed

theorem process_page_content_table_precedence_witness:
  "process_text_block (block_text ex_block_in_table) =
     [(''Ingredient'', Scalar ''CAS''), (''Water'', Scalar ''7732-18-5'')]
   \<and> process_page_content sample_rect_methods ex_table_page ex_region =
     Inr [(''Ingredient'', Sequence [''Water'']), (''CAS'', Sequence [''7732-18-5'']),
          (''Storage'', Scalar ''Keep dry'')]"
proof -
  have blocks: "get_text_blocks ex_table_page ex_region = [] @ ex_block_in_table # [ex_block_below]"
    by (simp add: ex_table_page_def)
  have "intersects sample_rect_methods (block_rect ex_block_in_table) (table_bbox ex_table)"
    by (simp add: sample_rect_methods_def ex_block_in_table_def ex_table_def)
  then have hit: "\<exists>t \<in> set (find_tables ex_table_page ex_region).
      intersects sample_rect_methods (block_rect ex_block_in_table) (table_bbox t)"
    by (simp add: ex_table_page_def)
  have tb: "process_text_block (block_text ex_block_in_table) =
     [(''Ingredient'', Scalar ''CAS''), (''Water'', Scalar ''7732-18-5'')]"
    by code_simp
  have rest: "process_page_content sample_rect_methods
      (ex_table_page\<lparr>get_text_blocks :=
         (get_text_blocks ex_table_page)(ex_region := [] @ [ex_block_below])\<rparr>) ex_region =
     Inr [(''Ingredient'', Sequence [''Water'']), (''CAS'', Sequence [''7732-18-5'']),
          (''Storage'', Scalar ''Keep dry'')]"
    by code_simp
  from process_page_content_table_precedence [OF blocks hit] rest tb
  show ?thesis by simp
qed

section \<open>Properties of the extraction\<close>

lemma name_not_derived: "key @ ''_conflict'' \<noteq> ''name''"
proof
  assume "key @ ''_conflict'' = ''name''"
  then have "last (key @ ''_conflict'') = last ''name''" by simp
  then show False by simp
qed

lemma merge_item_keeps_scalar:
  assumes "\<forall>key. key @ ''_conflict'' \<noteq> K" and "map_of existing K = Some (Scalar a)"
  shows "map_of (merge_item existing key value) K = Some (Scalar a)"
proof (cases "key = K")
  case True
  with assms show ?thesis
    by (simp add: merge_item_def map_of_dict_set)
next
  case False
  with assms show ?thesis
    by (auto simp: merge_item_def map_of_dict_set split: option.splits val.splits)
qed

lemma merge_data_keeps_scalar:
  assumes "\<forall>key. key @ ''_conflict'' \<noteq> K" and "map_of existing K = Some (Scalar a)"
  shows "map_of (merge_data existing new) K = Some (Scalar a)"
  using assms(2)
proof (induction new arbitrary: existing)
  case Nil
  then show ?case by simp
next
  case (Cons kv new)
  obtain key "value" where kv: "kv = (key, value)" by (cases kv)
  from merge_item_keeps_scalar [OF assms(1) Cons.prems]
  have "map_of (merge_item existing key value) K = Some (Scalar a)" .
  from Cons.IH [OF this] show ?case by (simp add: kv)
qed

lemma pages_loop_keeps_name:
  "pages_loop R P pgs result = Inr result' \<Longrightarrow> map_of result ''name'' = Some (Scalar n) \<Longrightarrow>
     map_of result' ''name'' = Some (Scalar n)"
proof (induction pgs arbitrary: result)
  case Nil
  then show ?case by simp
next
  case (Cons pg pgs)
  have keep: "map_of (merge_data result page_result) ''name'' = Some (Scalar n)" for page_result
    using merge_data_keeps_scalar [of "''name''" result n page_result] name_not_derived Cons.prems(2)
    by blast
  from Cons.prems(1) consider
      (skip) "pages_loop R P pgs result = Inr result'"
    | (merge) page_result where "pages_loop R P pgs (merge_data result page_result) = Inr result'"
    by (auto split: if_splits option.splits sum.splits)
  then show ?case
  proof cases
    case skip
    from Cons.IH [OF this Cons.prems(2)] show ?thesis .
  next
    case merge
    from Cons.IH [OF this keep] show ?thesis .
  qed
qed

lemma bbox_returns:
  assumes "\<forall>needle. \<exists>rs. search_for pg needle = Inr rs"
  shows "\<exists>r. calculate_subsection_bbox pg markers = Inr r"
proof -
  have "\<exists>r. bbox_body pg markers = Inr r \<or> bbox_body pg markers = Inl KeyError"
  proof (cases "map_of markers ''start_marker''")
    case None
    then show ?thesis by (simp add: bbox_body_def)
  next
    case (Some sm)
    from assms obtain srs where s: "search_for pg sm = Inr srs" by blast
    show ?thesis
    proof (cases "map_of markers ''stop_marker''")
      case None
      with Some s show ?thesis by (simp add: bbox_body_def)
    next
      case (Some st)
      from assms obtain trs where t: "search_for pg st = Inr trs" by blast
      from \<open>map_of markers ''start_marker'' = Some sm\<close> Some s t show ?thesis
        by (cases srs; cases trs) (simp_all add: bbox_body_def)
    qed
  qed
  then show ?thesis
    by (auto simp: calculate_subsection_bbox_def)
qed

lemma process_table_returns:
  "table_extract t \<noteq> Inl KeyError \<and> table_extract t \<noteq> Inl OtherError \<Longrightarrow>
     \<exists>d. process_table t = Inr d"
proof (cases "table_extract t")
  case (Inl e)
  assume "table_extract t \<noteq> Inl KeyError \<and> table_extract t \<noteq> Inl OtherError"
  with Inl show ?thesis
    by (cases e) (simp_all add: process_table_def)
next
  case (Inr data)
  then show ?thesis by (simp add: process_table_def)
qed

lemma tables_loop_returns:
  "\<forall>t \<in> set ts. table_extract t \<noteq> Inl KeyError \<and> table_extract t \<noteq> Inl OtherError \<Longrightarrow>
     \<exists>st'. tables_loop ts st = Inr st'"
proof (induction ts arbitrary: st)
  case Nil
  then show ?case by simp
next
  case (Cons t ts)
  obtain content zones where st: "st = (content, zones)" by (cases st)
  from Cons.prems have "table_extract t \<noteq> Inl KeyError \<and> table_extract t \<noteq> Inl OtherError"
    by simp
  from process_table_returns [OF this] obtain d where d: "process_table t = Inr d" by blast
  from Cons.prems have "\<forall>t \<in> set ts. table_extract t \<noteq> Inl KeyError \<and> table_extract t \<noteq> Inl OtherError"
    by simp
  from Cons.IH [OF this] d st show ?case by simp
qed

lemma process_page_content_returns:
  "\<forall>t \<in> set (find_tables pg bbox). table_extract t \<noteq> Inl KeyError \<and> table_extract t \<noteq> Inl OtherError \<Longrightarrow>
     \<exists>c. process_page_content R pg bbox = Inr c"
proof -
  assume "\<forall>t \<in> set (find_tables pg bbox). table_extract t \<noteq> Inl KeyError \<and> table_extract t \<noteq> Inl OtherError"
  from tables_loop_returns [OF this] obtain st' where
    "tables_loop (find_tables pg bbox) ([], []) = Inr st'" by blast
  then show ?thesis
    by (cases st') (simp add: process_page_content_def)
qed

lemma pages_loop_returns:
  "\<forall>pg \<in> set pgs. (\<forall>needle. \<exists>rs. search_for pg needle = Inr rs) \<and>
      (\<forall>clip. \<forall>t \<in> set (find_tables pg clip).
         table_extract t \<noteq> Inl KeyError \<and> table_extract t \<noteq> Inl OtherError) \<Longrightarrow>
     \<exists>result'. pages_loop R P pgs result = Inr result'"
proof (induction pgs arbitrary: result)
  case Nil
  then show ?case by simp
next
  case (Cons pg pgs)
  from Cons.prems have rest: "\<forall>pg \<in> set pgs. (\<forall>needle. \<exists>rs. search_for pg needle = Inr rs) \<and>
      (\<forall>clip. \<forall>t \<in> set (find_tables pg clip).
         table_extract t \<noteq> Inl KeyError \<and> table_extract t \<noteq> Inl OtherError)"
    by simp
  note IH = Cons.IH [OF rest]
  from Cons.prems have s: "\<forall>needle. \<exists>rs. search_for pg needle = Inr rs"
    and t: "\<And>clip. \<forall>t \<in> set (find_tables pg clip).
         table_extract t \<noteq> Inl KeyError \<and> table_extract t \<noteq> Inl OtherError"
    by simp_all
  show ?case
  proof (cases "search (section_pattern P) (get_text pg)")
    case False
    with IH show ?thesis by simp
  next
    case True
    note matched = this
    show ?thesis
    proof (cases "find_section_boundaries P pg")
      case None
      with matched IH show ?thesis by simp
    next
      case (Some markers)
      from bbox_returns [OF s] obtain r where r: "calculate_subsection_bbox pg markers = Inr r"
        by blast
      show ?thesis
      proof (cases r)
        case None
        with matched Some r IH show ?thesis by simp
      next
        case (Some bbox)
        from process_page_content_returns [OF t] obtain c
          where c: "process_page_content R pg bbox = Inr c" by blast
        from matched \<open>find_section_boundaries P pg = Some markers\<close> r Some c
          IH [of result] IH [of "merge_data result c"]
        show ?thesis by (cases "rect_bool R bbox") simp_all
      qed
    qed
  qed
qed

lemma remove_all_pdf_suffix:
  "CHR ''.'' \<notin> set stem \<Longrightarrow> remove_all ''.pdf'' (stem @ ''.pdf'') = stem"
  by (induction stem) auto

lemma file_stem_pdf_suffix:
  assumes "stem \<noteq> []" and "CHR ''.'' \<notin> set stem" and "CHR ''/'' \<notin> set stem"
  shows "file_stem (stem @ ''.pdf'') = stem"
proof -
  from assms(3) have "\<forall>c \<in> set (rev (stem @ ''.pdf'')). c \<noteq> CHR ''/''"
    by auto
  then have "takeWhile (\<lambda>c. c \<noteq> CHR ''/'') (rev (stem @ ''.pdf'')) = rev (stem @ ''.pdf'')"
    by (rule takeWhile_eq_all_conv [THEN iffD2])
  then have b: "base_name (stem @ ''.pdf'') = stem @ ''.pdf''"
    unfolding base_name_def by (simp only: rev_rev_ident)
  have sfx: "rev (takeWhile (\<lambda>c. c \<noteq> CHR ''.'') (rev (stem @ ''.pdf''))) = ''pdf''"
    by simp
  from assms(1) have len: "Suc (length ''pdf'') < length (stem @ ''.pdf'')"
    by (cases stem) simp_all
  show ?thesis
    unfolding file_stem_def b Let_def sfx
    using len by simp
qed

lemma extract_section_name_kept:
  "extract_section R P doc = Inr result \<Longrightarrow>
     map_of result ''name'' = Some (Scalar (remove_all ''.pdf'' (doc_name doc)))"
proof -
  assume "extract_section R P doc = Inr result"
  then have "pages_loop R P (doc_pages doc)
      [(''name'', Scalar (remove_all ''.pdf'' (doc_name doc)))] = Inr result"
    by (simp add: extract_section_def)
  from pages_loop_keeps_name [OF this] show ?thesis
    by simp
qed

lemma extract_section_returns:
  assumes "\<forall>pg \<in> set (doc_pages doc).
         (\<forall>needle. \<exists>rs. search_for pg needle = Inr rs) \<and>
         (\<forall>clip. \<forall>t \<in> set (find_tables pg clip).
            table_extract t \<noteq> Inl KeyError \<and> table_extract t \<noteq> Inl OtherError)"
  shows "\<exists>result. extract_section R P doc = Inr result"
  using pages_loop_returns [OF assms]
  by (simp add: extract_section_def)

lemma extract_section_name_is_file_stem:
  assumes "doc_name doc = stem @ ''.pdf''"
    and "stem \<noteq> []" and "CHR ''.'' \<notin> set stem" and "CHR ''/'' \<notin> set stem"
    and "extract_section R P doc = Inr result"
  shows "map_of result ''name'' = Some (Scalar (file_stem (doc_name doc)))"
  using extract_section_name_kept [OF assms(5)] assms(1)
    remove_all_pdf_suffix [OF assms(3)] file_stem_pdf_suffix [OF assms(2-4)]
  by simp

lemma extract_section_example:
  "extract_section sample_rect_methods (new_parser []) ex_doc =
     Inr [(''name'', Scalar ''sheet''), (''Ingredient'', Sequence [''Water'']),
          (''CAS'', Sequence [''7732-18-5'']), (''Storage'', Scalar ''Keep dry'')]"
  by code_simp

text \<open>
  C9. A record returned by \<^verbatim>\<open>extract_section\<close> always has the field \<open>name\<close>, seeded with
  \<^verbatim>\<open>doc.name.replace('.pdf', '')\<close> and never overwritten, whatever pages match or are
  skipped (\<open>extract_section_name_kept\<close>); for a name \<open>stem.pdf\<close> without any other dot
  or directory part it is the file name without its extension
  (\<open>extract_section_name_is_file_stem\<close>). The replacement removes the lower-case text
  \<^verbatim>\<open>.pdf\<close> wherever it stands instead of removing the extension: for the document
  \<^verbatim>\<open>report.PDF\<close> the value of \<open>name\<close> is \<^verbatim>\<open>report.PDF\<close>, while the file name
  without its extension is \<^verbatim>\<open>report\<close>.
\<close>

theorem extract_section_name_upper_case_extension:
  "extract_section sample_rect_methods (new_parser [])
      \<lparr>doc_name = ''report.PDF'', doc_pages = [ex_plain_page]\<rparr> =
     Inr [(''name'', Scalar ''report.PDF'')]
   \<and> file_stem ''report.PDF'' = ''report''"
  by code_simp

lemma extract_section_no_match:
  assumes "\<forall>pg \<in> set (doc_pages doc). \<not> search (section_pattern P) (get_text pg)"
  shows "extract_section R P doc = Inr [(''name'', Scalar (remove_all ''.pdf'' (doc_name doc)))]"
proof -
  have "\<forall>pg \<in> set pgs. \<not> search (section_pattern P) (get_text pg) \<Longrightarrow>
      pages_loop R P pgs result = Inr result" for pgs result
    by (induction pgs) auto
  from this [OF assms] show ?thesis
    by (simp add: extract_section_def)
qed

lemma extract_section_nonempty:
  "extract_section R P doc = Inr data \<Longrightarrow> data \<noteq> []"
proof -
  assume "extract_section R P doc = Inr data"
  then have "map_of data ''name'' = Some (Scalar (remove_all ''.pdf'' (doc_name doc)))"
    unfolding extract_section_def
    by (rule pages_loop_keeps_name) simp
  then show ?thesis by auto
qed

lemma main_exit_code:
  "fst (main R config doc) = (case extract_section R (new_parser config) doc of Inl e \<Rightarrow> 1 | Inr data \<Rightarrow> 0)"
  by (auto simp: main_def dest: extract_section_nonempty split: sum.splits)

lemma main_no_match:
  assumes "\<forall>pg \<in> set (doc_pages doc). \<not> search (section_pattern (new_parser config)) (get_text pg)"
  shows "main R config doc =
     (0, Some ([''name''], [[remove_all ''.pdf'' (doc_name doc)]]))"
  using extract_section_no_match [OF assms, of R]
  by (simp add: main_def export_to_csv_def keys_def csv_entry_def)

text \<open>
  C3. In the document of the example no page has the section label.
  \<^verbatim>\<open>extract_section\<close> returns the record with the field \<open>name\<close> alone, as specified.
  That record is not empty, so the test \<^verbatim>\<open>if data:\<close> of \<^verbatim>\<open>main\<close> succeeds: the record is
  exported as a CSV file of one column and the exit code is 0, where the specification has a
  failure with exit code 1. \<open>extract_section_nonempty\<close> and \<open>main_exit_code\<close> show it
  for every document: the branch of \<^verbatim>\<open>main\<close> that reports "No data extracted" is
  never taken.
\<close>

theorem main_no_section_exit_code:
  "extract_section sample_rect_methods (new_parser []) ex_no_section_doc =
     Inr [(''name'', Scalar ''report'')]
   \<and> main sample_rect_methods [] ex_no_section_doc = (0, Some ([''name''], [[''report'']]))"
  by code_simp

text \<open>
  A page with a start marker and no stop marker. \<^verbatim>\<open>_find_section_boundaries\<close> returns
  the start marker and, under the key \<^verbatim>\<open>stop_marker\<close>, \<^verbatim>\<open>None\<close>;
  \<^verbatim>\<open>_calculate_subsection_bbox\<close> hands that \<^verbatim>\<open>None\<close> to \<^verbatim>\<open>page.search_for\<close> and catches
  \<^verbatim>\<open>KeyError\<close> only. What follows is what the library's search does with \<^verbatim>\<open>None\<close>:
  the page is skipped when the search returns no rectangle, and an exception other than
  \<^verbatim>\<open>KeyError\<close> leaves \<^verbatim>\<open>extract_section\<close>.
\<close>

lemma find_section_boundaries_no_stop:
  assumes "map strip (split_lines (get_text pg)) = before @ line # after"
    and "\<forall>l \<in> set before. \<not> search (section_pattern P) l"
    and "search (section_pattern P) line"
    and "\<forall>l \<in> set after. \<not> search base_section_pattern l"
  shows "find_section_boundaries P pg =
     Some [(''start_marker'', Some line), (''stop_marker'', None)]"
proof -
  from assms(4) have "find (search base_section_pattern) after = None"
    by (simp add: find_None_iff)
  with assms(2,3) have "boundaries_loop P (before @ line # after) =
      [(''start_marker'', Some line), (''stop_marker'', None)]"
    by (induction before) simp_all
  with assms(1) show ?thesis
    by (simp add: find_section_boundaries_def)
qed

lemma bbox_no_stop_marker:
  "calculate_subsection_bbox pg [(''start_marker'', Some start), (''stop_marker'', None)] =
     (case search_for pg (Some start) of
        Inl e \<Rightarrow> (if e = KeyError then Inr None else Inl e)
      | Inr start_rects \<Rightarrow>
          (case search_for pg None of
             Inl e \<Rightarrow> (if e = KeyError then Inr None else Inl e)
           | Inr stop_rects \<Rightarrow>
               (case (start_rects, stop_rects) of
                  (s # _, t # _) \<Rightarrow>
                    Inr (Some \<lparr>x0 = 0, y0 = y1 s, x1 = rect_width pg, y1 = y0 t\<rparr>)
                | _ \<Rightarrow> Inr None)))"
  by (simp add: calculate_subsection_bbox_def bbox_body_def split: sum.splits list.splits)

lemma page_without_stop_marker_raises:
  assumes "search (section_pattern P) (get_text pg)"
    and "find_section_boundaries P pg = Some [(''start_marker'', Some start), (''stop_marker'', None)]"
    and "search_for pg (Some start) = Inr start_rects"
    and "search_for pg None = Inl e" and "e \<noteq> KeyError"
  shows "pages_loop R P (pg # pgs) result = Inl e"
  using assms by (simp add: bbox_no_stop_marker)

lemma page_without_stop_marker_skipped:
  assumes "find_section_boundaries P pg = Some [(''start_marker'', Some start), (''stop_marker'', None)]"
    and "search_for pg (Some start) = Inr start_rects"
    and "search_for pg None = Inr []"
  shows "pages_loop R P (pg # pgs) result = pages_loop R P pgs result"
  using assms by (simp add: bbox_no_stop_marker split: list.splits)

end
